theory Spec2Isabelle
  imports Complex_Main "HOL-Library.Word" "HOL-Library.Sublist"
begin

section \<open>Strings\<close>

text \<open>
  A TypeScript string is a sequence of UTF-16 code units; \<open>length\<close>, \<open>slice\<close>,
  \<open>startsWith\<close> and regular expressions without the \<open>u\<close> flag all work on code units.
\<close>

type_synonym jschar = "16 word"
type_synonym jsstring = "jschar list"

definition js :: "string \<Rightarrow> jsstring" where
  "js s = map (\<lambda>c. word_of_nat (of_char c)) s"

definition TAB :: jschar where "TAB = 0x09"
definition LF :: jschar where "LF = 0x0A"
definition CR :: jschar where "CR = 0x0D"
definition SP :: jschar where "SP = 0x20"

section \<open>Sanitizer\<close>

text \<open>\<^verbatim>\<open>CONTROL_CHAR_REGEX = /[\x00-\x08\v\f\x0E-\x1F\x7F-\x9F]/g\<close>\<close>

definition isControlChar :: "jschar \<Rightarrow> bool" where
  "isControlChar c \<longleftrightarrow>
     c \<le> 0x08 \<or> c = 0x0B \<or> c = 0x0C \<or> (0x0E \<le> c \<and> c \<le> 0x1F) \<or> (0x7F \<le> c \<and> c \<le> 0x9F)"

text \<open>\<^verbatim>\<open>ZERO_WIDTH_REGEX\<close>: the class of U+200B to U+200D, U+FEFF and U+00AD.\<close>

definition isZeroWidth :: "jschar \<Rightarrow> bool" where
  "isZeroWidth c \<longleftrightarrow> (0x200B \<le> c \<and> c \<le> 0x200D) \<or> c = 0xFEFF \<or> c = 0x00AD"

text \<open>\<^verbatim>\<open>BIDI_CONTROL_REGEX\<close>: the class of U+202A to U+202E and U+2066 to U+2069.\<close>

definition isBidiControl :: "jschar \<Rightarrow> bool" where
  "isBidiControl c \<longleftrightarrow> (0x202A \<le> c \<and> c \<le> 0x202E) \<or> (0x2066 \<le> c \<and> c \<le> 0x2069)"

text \<open>
  What \<^verbatim>\<open>String.prototype.trim\<close> strips: the WhiteSpace and LineTerminator code points of
  ECMAScript (tab, vertical tab, form feed, the space separators, the byte-order mark,
  line feed, carriage return, line and paragraph separator).
\<close>

definition isWhiteSpace :: "jschar \<Rightarrow> bool" where
  "isWhiteSpace c \<longleftrightarrow>
     c = 0x09 \<or> c = 0x0A \<or> c = 0x0B \<or> c = 0x0C \<or> c = 0x0D \<or> c = 0x20 \<or> c = 0xA0 \<or>
     c = 0x1680 \<or> (0x2000 \<le> c \<and> c \<le> 0x200A) \<or> c = 0x2028 \<or> c = 0x2029 \<or>
     c = 0x202F \<or> c = 0x205F \<or> c = 0x3000 \<or> c = 0xFEFF"

text \<open>\<^verbatim>\<open>.replace(REGEX, '')\<close> for a one-character class: every match is dropped.\<close>

definition removeAll :: "(jschar \<Rightarrow> bool) \<Rightarrow> jsstring \<Rightarrow> jsstring" where
  "removeAll cls s = filter (\<lambda>c. \<not> cls c) s"

text \<open>\<^verbatim>\<open>.replace(/\r\n/g, '\n')\<close>: a left-to-right scan; a match consumes both units.\<close>

fun replaceCRLF :: "jsstring \<Rightarrow> jsstring" where
  "replaceCRLF (a # b # cs) =
     (if a = CR \<and> b = LF then LF # replaceCRLF cs else a # replaceCRLF (b # cs))"
| "replaceCRLF cs = cs"

text \<open>\<^verbatim>\<open>.replace(/\r/g, '\n')\<close>\<close>

definition replaceCR :: "jsstring \<Rightarrow> jsstring" where
  "replaceCR s = map (\<lambda>c. if c = CR then LF else c) s"

text \<open>
  \<^verbatim>\<open>.replace(/ +/g, ' ')\<close>: at a space the greedy match takes the whole run and one space
  is written; at any other unit the scan moves on by one.
\<close>

function collapseSpaces :: "jsstring \<Rightarrow> jsstring" where
  "collapseSpaces [] = []"
| "collapseSpaces (c # cs) =
     (if c = SP then SP # collapseSpaces (dropWhile (\<lambda>d. d = SP) cs)
      else c # collapseSpaces cs)"
  by pat_completeness auto
termination
  by (relation "measure length") (auto simp: length_dropWhile_le less_Suc_eq_le)

text \<open>
  \<^verbatim>\<open>.replace(/\n{3,}/g, '\n\n')\<close>: where at least three line feeds start, the greedy match
  takes the whole run and two are written; elsewhere the unit is copied and the scan moves
  on by one.
\<close>

function collapseNewlines :: "jsstring \<Rightarrow> jsstring" where
  "collapseNewlines [] = []"
| "collapseNewlines (c # cs) =
     (let n = length (takeWhile (\<lambda>d. d = LF) (c # cs))
      in if 3 \<le> n then LF # LF # collapseNewlines (drop n (c # cs))
         else c # collapseNewlines cs)"
  by pat_completeness auto
termination
  by (relation "measure length") auto

text \<open>\<^verbatim>\<open>.trim()\<close>\<close>

definition trim :: "jsstring \<Rightarrow> jsstring" where
  "trim s = rev (dropWhile isWhiteSpace (rev (dropWhile isWhiteSpace s)))"

text \<open>
  The steps of \<^verbatim>\<open>sanitizeText\<close> that follow \<^verbatim>\<open>.normalize('NFC')\<close>, in the order of the
  method chain.
\<close>

definition cleanup :: "jsstring \<Rightarrow> jsstring" where
  "cleanup s =
     trim (collapseNewlines (collapseSpaces (replaceCR (replaceCRLF
       (removeAll isBidiControl (removeAll isZeroWidth (removeAll isControlChar s)))))))"

text \<open>
  \<^verbatim>\<open>sanitizeText\<close>. Unicode normalization is the platform's \<^verbatim>\<open>String.prototype.normalize\<close>,
  not code of the repository: it is the parameter \<open>nfc\<close>.
\<close>

definition sanitizeText :: "(jsstring \<Rightarrow> jsstring) \<Rightarrow> jsstring \<Rightarrow> jsstring" where
  "sanitizeText nfc text = cleanup (nfc text)"

definition isEmptyText :: "(jsstring \<Rightarrow> jsstring) \<Rightarrow> jsstring \<Rightarrow> bool" where
  "isEmptyText nfc text \<longleftrightarrow> length (sanitizeText nfc text) = 0"

record validated =
  text_out :: jsstring
  valid :: bool
  length_out :: nat

text \<open>
  \<^verbatim>\<open>sanitizeAndValidate(text, minLength = 100)\<close>: an omitted second argument is \<open>None\<close>.
  Lengths are counts of code units, hence natural numbers. The fields \<open>text\<close> and
  \<open>length\<close> of the returned object are \<open>text_out\<close> and \<open>length_out\<close>.
\<close>

definition sanitizeAndValidate ::
    "(jsstring \<Rightarrow> jsstring) \<Rightarrow> jsstring \<Rightarrow> nat option \<Rightarrow> validated" where
  "sanitizeAndValidate nfc txt minLengthArg =
     (let minLength = (case minLengthArg of None \<Rightarrow> 100 | Some m \<Rightarrow> m);
          sanitized = sanitizeText nfc txt
      in \<lparr> text_out = sanitized,
           valid = (length sanitized \<ge> minLength),
           length_out = length sanitized \<rparr>)"

text \<open>
  For evaluating examples: canonical composition restricted to the one pair that the
  repository's test \<^verbatim>\<open>'normalizes unicode to NFC form'\<close> exercises, \<open>e\<close> followed by
  U+0301 (combining acute accent) giving U+00E9. On the strings evaluated below it returns
  what NFC returns: U+0301 composes with an immediately preceding \<open>e\<close>, and with nothing
  when a zero-width space (a starter without compositions) stands between them.
\<close>

fun composeEAcute :: "jsstring \<Rightarrow> jsstring" where
  "composeEAcute (a # b # cs) =
     (if a = 0x65 \<and> b = 0x301 then 0xE9 # composeEAcute cs else a # composeEAcute (b # cs))"
| "composeEAcute cs = cs"

text \<open>Characters that none of the three removal classes matches.\<close>

definition plainChar :: "jschar \<Rightarrow> bool" where
  "plainChar c \<longleftrightarrow> \<not> isControlChar c \<and> \<not> isZeroWidth c \<and> \<not> isBidiControl c"

section \<open>Token counter\<close>

text \<open>
  The tokenizer of \<^verbatim>\<open>mistral-tokenizer-ts\<close>, as the module declaration types it. The lazily
  imported instance that \<^verbatim>\<open>getTokenizer\<close> resolves to is a \<open>tokenizer option\<close>: \<open>None\<close>
  when the import failed.
\<close>

record tokenizer =
  encode :: "jsstring \<Rightarrow> nat list"
  decode :: "nat list \<Rightarrow> jsstring"

definition CHARS_PER_TOKEN :: nat where
  "CHARS_PER_TOKEN = 4"

text \<open>
  \<^verbatim>\<open>Math.ceil(text.length / CHARS_PER_TOKEN)\<close>: a division of numbers, then the ceiling.
  For string lengths the quotient by 4 is exact in double precision.
\<close>

definition countTokens :: "tokenizer option \<Rightarrow> jsstring \<Rightarrow> nat" where
  "countTokens tok txt =
     (case tok of
        Some t \<Rightarrow> length (encode t txt)
      | None \<Rightarrow> nat \<lceil>real (length txt) / real CHARS_PER_TOKEN\<rceil>)"

definition countTokensEstimate :: "jsstring \<Rightarrow> nat" where
  "countTokensEstimate txt = nat \<lceil>real (length txt) / real CHARS_PER_TOKEN\<rceil>"

definition exceedsTokenLimit :: "tokenizer option \<Rightarrow> jsstring \<Rightarrow> nat \<Rightarrow> bool" where
  "exceedsTokenLimit tok txt maxTokens \<longleftrightarrow> countTokens tok txt > maxTokens"

text \<open>
  \<^verbatim>\<open>xs.slice(a, b)\<close> of strings and arrays, for indices \<open>0 \<le> a \<le> b\<close>; an end beyond the
  length stops at the length.
\<close>

definition slice :: "'a list \<Rightarrow> nat \<Rightarrow> nat \<Rightarrow> 'a list" where
  "slice xs a b = take (b - a) (drop a xs)"

text \<open>\<^verbatim>\<open>truncateToTokenLimit\<close>. A token limit is a count, a natural number.\<close>

definition truncateToTokenLimit :: "tokenizer option \<Rightarrow> jsstring \<Rightarrow> nat \<Rightarrow> jsstring" where
  "truncateToTokenLimit tok txt maxTokens =
     (case tok of
        Some t \<Rightarrow>
          (let tokens = encode t txt
           in if length tokens \<le> maxTokens then txt
              else (let truncatedTokens = slice tokens 0 maxTokens in decode t truncatedTokens))
      | None \<Rightarrow>
          (let maxChars = maxTokens * CHARS_PER_TOKEN
           in if length txt \<le> maxChars then txt else slice txt 0 maxChars))"

text \<open>For evaluating examples: a tokenizer with one token per code unit.\<close>

definition unitTokenizer :: tokenizer where
  "unitTokenizer = \<lparr> encode = map unat, decode = map word_of_nat \<rparr>"

section \<open>Embedding client\<close>

text \<open>
  The embedding endpoint of the provider's SDK, \<^verbatim>\<open>mistral.embeddings.create\<close> with the
  model fixed, is a parameter: a request either fails with one of the SDK's error classes or
  answers with the vectors and the usage counters. The module-level client is a
  \<open>client option\<close>: \<open>None\<close> when no API key is configured.
\<close>

datatype providerError =
  SDKValidationError string
| HTTPValidationError string
| OtherError string

record 'v embeddingResponse =
  data :: "'v list"
  promptTokens :: "nat option"
  totalTokens :: "nat option"

type_synonym 'v client = "jsstring list \<Rightarrow> providerError + 'v embeddingResponse"

record 'v EmbeddingResult =
  embeddings :: "'v list"
  usage_promptTokens :: nat
  usage_totalTokens :: nat

text \<open>The errors \<^verbatim>\<open>createEmbeddings\<close> throws, one constructor per \<^verbatim>\<open>throw\<close>.\<close>

datatype embedError =
  ClientNotInitialized
| MaximumTextsPerRequest
| AtLeastOneTextRequired
| MistralValidationFailed string
| MistralApiValidationFailed string
| Rethrown string

text \<open>
  What a run does besides returning: requests sent to the provider, invocations of the
  progress callback and timer waits (milliseconds), in the order they happen. Log lines are
  left out.
\<close>

datatype event =
  ProviderCall "jsstring list"
| Progress nat nat
| Delay nat

definition MAX_BATCH_SIZE :: nat where
  "MAX_BATCH_SIZE = 16"

definition createEmbeddings ::
    "'v client option \<Rightarrow> jsstring list \<Rightarrow> event list \<Rightarrow> (embedError + 'v EmbeddingResult) \<times> event list" where
  "createEmbeddings mistral texts tr =
     (case mistral of
        None \<Rightarrow> (Inl ClientNotInitialized, tr)
      | Some create \<Rightarrow>
          if length texts > MAX_BATCH_SIZE then (Inl MaximumTextsPerRequest, tr)
          else if length texts = 0 then (Inl AtLeastOneTextRequired, tr)
          else
            (case create texts of
               Inr result \<Rightarrow>
                 (Inr \<lparr> embeddings = data result,
                        usage_promptTokens = (case promptTokens result of None \<Rightarrow> 0 | Some n \<Rightarrow> n),
                        usage_totalTokens = (case totalTokens result of None \<Rightarrow> 0 | Some n \<Rightarrow> n) \<rparr>,
                  tr @ [ProviderCall texts])
             | Inl (SDKValidationError m) \<Rightarrow> (Inl (MistralValidationFailed m), tr @ [ProviderCall texts])
             | Inl (HTTPValidationError m) \<Rightarrow> (Inl (MistralApiValidationFailed m), tr @ [ProviderCall texts])
             | Inl (OtherError m) \<Rightarrow> (Inl (Rethrown m), tr @ [ProviderCall texts])))"

text \<open>
  The \<^verbatim>\<open>for\<close> loop of \<^verbatim>\<open>createEmbeddingsBatched\<close> from index \<open>i\<close>, with the vectors
  collected so far. \<open>onProgress\<close> tells whether the optional callback was passed; a call of
  it is the event \<open>Progress completed total\<close>. An error of \<^verbatim>\<open>createEmbeddings\<close> leaves the
  loop.
\<close>

function batchLoop ::
    "'v client option \<Rightarrow> jsstring list \<Rightarrow> bool \<Rightarrow> nat \<Rightarrow> 'v list \<Rightarrow> event list
      \<Rightarrow> (embedError + 'v list) \<times> event list" where
  "batchLoop mistral texts onProgress i allEmbeddings tr =
     (if i < length texts then
        (let batch = slice texts i (i + MAX_BATCH_SIZE)
         in case createEmbeddings mistral batch tr of
              (Inl e, tr1) \<Rightarrow> (Inl e, tr1)
            | (Inr result, tr1) \<Rightarrow>
                (let allEmbeddings' = allEmbeddings @ embeddings result;
                     tr2 = (if onProgress
                            then tr1 @ [Progress (min (i + MAX_BATCH_SIZE) (length texts)) (length texts)]
                            else tr1);
                     tr3 = (if i + MAX_BATCH_SIZE < length texts then tr2 @ [Delay 31000] else tr2)
                 in batchLoop mistral texts onProgress (i + MAX_BATCH_SIZE) allEmbeddings' tr3))
      else (Inr allEmbeddings, tr))"
  by pat_completeness auto
termination
  by (relation "measure (\<lambda>(mistral, texts, onProgress, i, allEmbeddings, tr). length texts - i)")
     (auto simp: MAX_BATCH_SIZE_def)

declare batchLoop.simps [simp del]

definition createEmbeddingsBatched ::
    "'v client option \<Rightarrow> jsstring list \<Rightarrow> bool \<Rightarrow> event list \<Rightarrow> (embedError + 'v list) \<times> event list" where
  "createEmbeddingsBatched mistral texts onProgress tr = batchLoop mistral texts onProgress 0 [] tr"

text \<open>
  The batches as the specification words them: the input cut, in order, into consecutive
  pieces of \<open>n\<close> texts, the last one possibly shorter.
\<close>

function partitionBatches :: "nat \<Rightarrow> 'a list \<Rightarrow> 'a list list" where
  "partitionBatches n xs =
     (if n = 0 \<or> xs = [] then [] else take n xs # partitionBatches n (drop n xs))"
  by pat_completeness auto
termination
  by (relation "measure (\<lambda>(n, xs). length xs)") auto

declare partitionBatches.simps [simp del]

text \<open>
  The events the specification expects of a run over the given batches of \<open>tot\<close> texts,
  \<open>completed\<close> texts being done before: one request per batch, then the progress report with the cumulative
  count, then the wait if another batch follows.
\<close>

fun expectedEvents :: "bool \<Rightarrow> nat \<Rightarrow> nat \<Rightarrow> jsstring list list \<Rightarrow> event list" where
  "expectedEvents onProgress tot completed [] = []"
| "expectedEvents onProgress tot completed (b # bs) =
     [ProviderCall b]
     @ (if onProgress then [Progress (completed + length b) tot] else [])
     @ (if bs \<noteq> [] then [Delay 31000] else [])
     @ expectedEvents onProgress tot (completed + length b) bs"

text \<open>The vectors of a successful answer.\<close>

definition vectorsOf :: "providerError + 'v embeddingResponse \<Rightarrow> 'v list" where
  "vectorsOf r = (case r of Inr result \<Rightarrow> data result | Inl e \<Rightarrow> [])"

definition isProviderCall :: "event \<Rightarrow> bool" where
  "isProviderCall ev = (case ev of ProviderCall b \<Rightarrow> True | _ \<Rightarrow> False)"

text \<open>For evaluating examples: a provider that answers every text with its length.\<close>

definition lengthProvider :: "nat client" where
  "lengthProvider texts = Inr \<lparr> data = map length texts, promptTokens = None, totalTokens = None \<rparr>"

section \<open>Upload validation\<close>







section \<open>Secure fetcher\<close>










section \<open>Chunks and vector keys\<close>

text \<open>
  A row of \<^verbatim>\<open>chunksSchema\<close>; \<open>id\<close> and \<open>createdAt\<close> are filled in by the database.
\<close>

record chunk =
  documentId :: jsstring
  content :: jsstring
  position :: nat
  tokenCount :: nat
  pineconeId :: jsstring

function decimal :: "nat \<Rightarrow> jsstring" where
  "decimal n =
     (if n < 10 then [word_of_nat (48 + n)]
      else decimal (n div 10) @ [word_of_nat (48 + n mod 10)])"
  by pat_completeness auto
termination
  by (relation "measure id") auto

declare decimal.simps [simp del]

text \<open>
  Modelled from the spec: the code that derives the vector-store key is not among the
  sources. The key is a function of the document identifier and the position; the ingestion
  plan gives its form, \<^verbatim>\<open>{documentId}_chunk_{position}\<close>.
\<close>

definition vectorKey :: "jsstring \<Rightarrow> nat \<Rightarrow> jsstring" where
  "vectorKey docId pos = docId @ js ''_chunk_'' @ decimal pos"

text \<open>
  Modelled from the spec: the ingestion orchestrator, which builds the chunk rows, is not
  among the sources. The rows of a document come from its pieces of text with their token
  counts; positions count from 0.
\<close>

definition buildChunks :: "jsstring \<Rightarrow> (jsstring \<times> nat) list \<Rightarrow> chunk list" where
  "buildChunks docId pieces =
     map (\<lambda>(i, (txt, toks)).
            \<lparr> documentId = docId, content = txt, position = i, tokenCount = toks,
              pineconeId = vectorKey docId i \<rparr>)
         (enumerate 0 pieces)"

text \<open>
  Modelled from the spec: the vector store is an external service, and the code that
  writes to it is not among the sources. The store maps a key to the vector and the
  metadata stored under it; an upsert writes its records in order, a later record of a key
  replacing an earlier one.
\<close>

type_synonym 'v vectorStore = "jsstring \<rightharpoonup> ('v \<times> chunk)"

definition upsert :: "'v vectorStore \<Rightarrow> (jsstring \<times> 'v \<times> chunk) list \<Rightarrow> 'v vectorStore" where
  "upsert store records = fold (\<lambda>(k, r) m. m(k \<mapsto> r)) records store"

text \<open>
  Modelled from the spec: the write step of the ingestion orchestrator, which is not among
  the sources. Ingestion writes one vector record per chunk, keyed by the chunk's
  vector-store key.
\<close>

definition ingestVectors ::
    "'v vectorStore \<Rightarrow> jsstring \<Rightarrow> (jsstring \<times> nat) list \<Rightarrow> 'v list \<Rightarrow> 'v vectorStore" where
  "ingestVectors store docId pieces vectors =
     upsert store (map (\<lambda>(c, v). (pineconeId c, (v, c))) (zip (buildChunks docId pieces) vectors))"

section \<open>Properties of the sanitizer\<close>

subsection \<open>Each step keeps within the characters it was given\<close>

lemma set_replaceCRLF: "set (replaceCRLF s) \<subseteq> set s"
  by (induction s rule: replaceCRLF.induct) auto

lemma set_collapseSpaces: "set (collapseSpaces s) \<subseteq> set s"
proof (induction s rule: collapseSpaces.induct)
  case 1
  then show ?case by simp
next
  case (2 c cs)
  have "set (dropWhile (\<lambda>d. d = SP) cs) \<subseteq> set cs"
    by (simp add: set_dropWhileD subsetI)
  with 2 show ?case by auto
qed

lemma set_collapseNewlines: "set (collapseNewlines s) \<subseteq> set s"
proof (induction s rule: collapseNewlines.induct)
  case 1
  then show ?case by simp
next
  case (2 c cs)
  let ?n = "length (takeWhile (\<lambda>d. d = LF) (c # cs))"
  show ?case
  proof (cases "3 \<le> ?n")
    case True
    then have "c = LF" by (auto split: if_splits)
    moreover have "set (drop ?n (c # cs)) \<subseteq> set (c # cs)"
      by (rule set_drop_subset)
    ultimately show ?thesis using True 2(1)[OF refl True] by (auto simp: Let_def)
  next
    case False
    then show ?thesis using 2(2)[OF refl False] by (auto simp: Let_def)
  qed
qed

lemma set_trim: "set (trim s) \<subseteq> set s"
proof -
  have "set (trim s) \<subseteq> set (rev (dropWhile isWhiteSpace s))"
    unfolding trim_def by (auto dest: set_dropWhileD)
  also have "\<dots> \<subseteq> set s" by (auto dest: set_dropWhileD)
  finally show ?thesis .
qed

lemma sublist_trim: "sublist (trim s) s"
proof -
  have "suffix (dropWhile isWhiteSpace s) s" by (rule suffix_dropWhile)
  moreover have "prefix (trim s) (dropWhile isWhiteSpace s)"
    unfolding trim_def by (metis suffix_dropWhile suffix_to_prefix rev_rev_ident)
  ultimately show ?thesis
    by (meson prefix_imp_sublist suffix_imp_sublist sublist_order.order_trans)
qed

subsection \<open>Runs of spaces and of line feeds\<close>

lemma collapseSpaces_head: "collapseSpaces t = x # r \<Longrightarrow> \<exists>r'. t = x # r'"
  by (cases t) (auto split: if_splits)

lemma collapseNewlines_head: "collapseNewlines t = x # r \<Longrightarrow> \<exists>r'. t = x # r'"
  by (cases t) (auto simp: Let_def split: if_splits)

lemma dropWhile_not_head: "dropWhile P xs \<noteq> x # r \<or> \<not> P x"
  by (metis hd_dropWhile list.sel(1) list.distinct(1))

lemma no_double_space_collapseSpaces: "\<not> sublist [SP, SP] (collapseSpaces s)"
proof (induction s rule: collapseSpaces.induct)
  case 1
  then show ?case by simp
next
  case (2 c cs)
  show ?case
  proof (cases "c = SP")
    case True
    let ?t = "dropWhile (\<lambda>d. d = SP) cs"
    have "\<not> prefix [SP] (collapseSpaces ?t)"
    proof
      assume "prefix [SP] (collapseSpaces ?t)"
      then obtain r where "collapseSpaces ?t = SP # r" by (auto simp: prefix_def)
      then obtain r' where "?t = SP # r'" using collapseSpaces_head by blast
      then show False using dropWhile_not_head[of "\<lambda>d. d = SP" cs SP r'] by simp
    qed
    with True 2(1) show ?thesis by (simp add: sublist_Cons_right)
  next
    case False
    with 2(2) show ?thesis by (simp add: sublist_Cons_right)
  qed
qed

lemma double_space_collapseNewlines:
  "sublist [SP, SP] (collapseNewlines s) \<Longrightarrow> sublist [SP, SP] s"
proof (induction s rule: collapseNewlines.induct)
  case 1
  then show ?case by simp
next
  case (2 c cs)
  let ?n = "length (takeWhile (\<lambda>d. d = LF) (c # cs))"
  have ne: "LF \<noteq> SP" by (simp add: LF_def SP_def)
  show ?case
  proof (cases "3 \<le> ?n")
    case True
    with 2(3) ne have "sublist [SP, SP] (collapseNewlines (drop ?n (c # cs)))"
      by (simp add: Let_def sublist_Cons_right)
    then have "sublist [SP, SP] (drop ?n (c # cs))" using 2(1)[OF refl True] by simp
    moreover have "sublist (drop ?n (c # cs)) (c # cs)"
      by (rule suffix_imp_sublist[OF suffix_drop])
    ultimately show ?thesis by (rule sublist_order.order_trans)
  next
    case False
    with 2(3) have "prefix [SP, SP] (c # collapseNewlines cs) \<or> sublist [SP, SP] (collapseNewlines cs)"
      by (simp add: Let_def sublist_Cons_right)
    then show ?thesis
    proof
      assume "prefix [SP, SP] (c # collapseNewlines cs)"
      then obtain r where "c = SP" "collapseNewlines cs = SP # r" by (auto simp: prefix_def)
      then obtain r' where "cs = SP # r'" using collapseNewlines_head by blast
      with \<open>c = SP\<close> show ?thesis by (simp add: sublist_Cons_right)
    next
      assume "sublist [SP, SP] (collapseNewlines cs)"
      then have "sublist [SP, SP] cs" using 2(2)[OF refl False] by simp
      then show ?thesis by (simp add: sublist_Cons_right)
    qed
  qed
qed

lemma lfRun_collapseNewlines:
  "length (takeWhile (\<lambda>d. d = LF) (collapseNewlines s)) = min 2 (length (takeWhile (\<lambda>d. d = LF) s))"
proof (induction s rule: collapseNewlines.induct)
  case 1
  then show ?case by simp
next
  case (2 c cs)
  let ?n = "length (takeWhile (\<lambda>d. d = LF) (c # cs))"
  show ?case
  proof (cases "3 \<le> ?n")
    case True
    have "drop ?n (c # cs) = dropWhile (\<lambda>d. d = LF) (c # cs)"
      by (rule dropWhile_eq_drop[symmetric])
    then have "takeWhile (\<lambda>d. d = LF) (drop ?n (c # cs)) = []"
      by (metis dropWhile_idem takeWhile_dropWhile_id append_self_conv2)
    with True 2(1)[OF refl True] show ?thesis by (simp add: Let_def)
  next
    case False
    with 2(2)[OF refl False] show ?thesis by (auto simp: Let_def split: if_splits)
  qed
qed

lemma prefix2_lfRun: "prefix [LF, LF] t \<Longrightarrow> 2 \<le> length (takeWhile (\<lambda>d. d = LF) t)"
  by (auto simp: prefix_def)

lemma prefix1_lfRun: "prefix [LF] t \<Longrightarrow> 1 \<le> length (takeWhile (\<lambda>d. d = LF) t)"
  by (auto simp: prefix_def)

lemma no_triple_newline_collapseNewlines: "\<not> sublist [LF, LF, LF] (collapseNewlines s)"
proof (induction s rule: collapseNewlines.induct)
  case 1
  then show ?case by simp
next
  case (2 c cs)
  let ?n = "length (takeWhile (\<lambda>d. d = LF) (c # cs))"
  show ?case
  proof (cases "3 \<le> ?n")
    case True
    let ?t = "drop ?n (c # cs)"
    have "?t = dropWhile (\<lambda>d. d = LF) (c # cs)"
      by (rule dropWhile_eq_drop[symmetric])
    then have "takeWhile (\<lambda>d. d = LF) ?t = []"
      by (metis dropWhile_idem takeWhile_dropWhile_id append_self_conv2)
    then have z: "length (takeWhile (\<lambda>d. d = LF) (collapseNewlines ?t)) = 0"
      by (simp add: lfRun_collapseNewlines)
    have "\<not> prefix [LF] (collapseNewlines ?t)"
      using prefix1_lfRun z by fastforce
    then have "\<not> prefix [LF, LF] (collapseNewlines ?t)"
      by (auto simp: prefix_def)
    with \<open>\<not> prefix [LF] (collapseNewlines ?t)\<close> True 2(1)[OF refl True] show ?thesis
      by (simp add: Let_def sublist_Cons_right)
  next
    case False
    have "\<not> prefix [LF, LF, LF] (c # collapseNewlines cs)"
    proof
      assume p: "prefix [LF, LF, LF] (c # collapseNewlines cs)"
      then have "c = LF" and "prefix [LF, LF] (collapseNewlines cs)" by auto
      then have "2 \<le> length (takeWhile (\<lambda>d. d = LF) (collapseNewlines cs))"
        using prefix2_lfRun by blast
      then have "2 \<le> length (takeWhile (\<lambda>d. d = LF) cs)"
        by (simp add: lfRun_collapseNewlines)
      with \<open>c = LF\<close> False show False by simp
    qed
    with False 2(2)[OF refl False] show ?thesis
      by (simp add: Let_def sublist_Cons_right)
  qed
qed

subsection \<open>Text on which a step changes nothing\<close>







lemma trim_ends:
  "trim s = [] \<or> (\<not> isWhiteSpace (hd (trim s)) \<and> \<not> isWhiteSpace (last (trim s)))"
proof (cases "trim s = []")
  case True
  then show ?thesis by simp
next
  case False
  let ?t = "dropWhile isWhiteSpace s"
  let ?u = "dropWhile isWhiteSpace (rev ?t)"
  from False have u: "?u \<noteq> []" by (simp add: trim_def)
  then have "\<not> isWhiteSpace (hd ?u)" by (rule hd_dropWhile)
  then have l: "\<not> isWhiteSpace (last (trim s))" using u by (simp add: trim_def last_rev)
  have t: "?t \<noteq> []"
  proof
    assume "?t = []"
    then have "?u = []" by (metis dropWhile.simps(1) rev.simps(1))
    with u show False by contradiction
  qed
  then have ht: "\<not> isWhiteSpace (hd ?t)" by (rule hd_dropWhile)
  have "prefix (trim s) ?t"
    unfolding trim_def by (metis suffix_dropWhile suffix_to_prefix rev_rev_ident)
  with False have "hd (trim s) = hd ?t" by (auto simp: prefix_def)
  with ht l show ?thesis by simp
qed


subsection \<open>The steps after normalization, together\<close>

lemma control_range:
  fixes c :: jschar
  assumes "\<not> isControlChar c" "c \<noteq> CR" "c \<le> 0x1F \<or> (0x7F \<le> c \<and> c \<le> 0x9F)"
  shows "c = TAB \<or> c = LF"
  using assms unfolding isControlChar_def CR_def TAB_def LF_def
  by unat_arith

lemma LF_plain: "\<not> isControlChar LF" "\<not> isZeroWidth LF" "\<not> isBidiControl LF" "LF \<noteq> CR"
  by (simp_all add: isControlChar_def isZeroWidth_def isBidiControl_def LF_def CR_def)

lemma set_filtered:
  "\<forall>c \<in> set (removeAll isBidiControl (removeAll isZeroWidth (removeAll isControlChar s))). plainChar c"
  by (auto simp: removeAll_def plainChar_def)

lemma set_replaceCR: "c \<in> set (replaceCR s) \<Longrightarrow> c \<noteq> CR \<and> (c \<in> set s \<or> c = LF)"
  by (auto simp: replaceCR_def LF_def CR_def split: if_splits)

lemma cleanup_chars:
  assumes "c \<in> set (cleanup s)"
  shows "plainChar c \<and> c \<noteq> CR"
proof -
  let ?f = "removeAll isBidiControl (removeAll isZeroWidth (removeAll isControlChar s))"
  from assms have "c \<in> set (replaceCR (replaceCRLF ?f))"
    unfolding cleanup_def
    using set_trim set_collapseNewlines set_collapseSpaces by blast
  then have "c \<noteq> CR" and "c \<in> set (replaceCRLF ?f) \<or> c = LF"
    using set_replaceCR by blast+
  then have "c \<in> set ?f \<or> c = LF" using set_replaceCRLF by blast
  then have "plainChar c" using set_filtered LF_plain by (auto simp: plainChar_def)
  with \<open>c \<noteq> CR\<close> show ?thesis by simp
qed

lemma cleanup_no_double_space: "\<not> sublist [SP, SP] (cleanup s)"
proof
  assume "sublist [SP, SP] (cleanup s)"
  then have "sublist [SP, SP] (collapseNewlines (collapseSpaces (replaceCR (replaceCRLF
       (removeAll isBidiControl (removeAll isZeroWidth (removeAll isControlChar s)))))))"
    unfolding cleanup_def using sublist_trim sublist_order.order_trans by blast
  then show False
    using double_space_collapseNewlines no_double_space_collapseSpaces by blast
qed

lemma cleanup_no_triple_newline: "\<not> sublist [LF, LF, LF] (cleanup s)"
proof
  assume "sublist [LF, LF, LF] (cleanup s)"
  then have "sublist [LF, LF, LF] (collapseNewlines (collapseSpaces (replaceCR (replaceCRLF
       (removeAll isBidiControl (removeAll isZeroWidth (removeAll isControlChar s)))))))"
    unfolding cleanup_def using sublist_trim sublist_order.order_trans by blast
  then show False
    using no_triple_newline_collapseNewlines by blast
qed

lemma cleanup_ends:
  "cleanup s = [] \<or> (\<not> isWhiteSpace (hd (cleanup s)) \<and> \<not> isWhiteSpace (last (cleanup s)))"
  unfolding cleanup_def by (rule trim_ends)




section \<open>The sanitizer claims\<close>





text \<open>
  C3. Whatever the normalizer returns, the output of \<^verbatim>\<open>sanitizeText\<close> has no C0 or C1
  control character or DEL other than tab and line feed, no zero-width or soft-hyphen
  character, no bidirectional control, no carriage return, no two consecutive spaces, no
  three consecutive line feeds, and neither starts nor ends with white space.
\<close>

theorem sanitizeText_output_clean:
  "(let out = sanitizeText nfc x in
      (\<forall>c \<in> set out. (c \<le> 0x1F \<or> (0x7F \<le> c \<and> c \<le> 0x9F)) \<longrightarrow> c = TAB \<or> c = LF) \<and>
      (\<forall>c \<in> set out. \<not> isZeroWidth c) \<and>
      (\<forall>c \<in> set out. \<not> isBidiControl c) \<and>
      CR \<notin> set out \<and>
      \<not> sublist [SP, SP] out \<and>
      \<not> sublist [LF, LF, LF] out \<and>
      (out = [] \<or> (\<not> isWhiteSpace (hd out) \<and> \<not> isWhiteSpace (last out))))"
proof -
  let ?out = "cleanup (nfc x)"
  have ch: "\<forall>c \<in> set ?out. plainChar c \<and> c \<noteq> CR" using cleanup_chars by blast
  then have "\<forall>c \<in> set ?out. (c \<le> 0x1F \<or> (0x7F \<le> c \<and> c \<le> 0x9F)) \<longrightarrow> c = TAB \<or> c = LF"
    using control_range by (auto simp: plainChar_def)
  moreover from ch have "\<forall>c \<in> set ?out. \<not> isZeroWidth c" "\<forall>c \<in> set ?out. \<not> isBidiControl c"
    "CR \<notin> set ?out"
    by (auto simp: plainChar_def)
  ultimately show ?thesis
    unfolding sanitizeText_def Let_def
    using cleanup_no_double_space cleanup_no_triple_newline cleanup_ends by blast
qed

theorem sanitizeText_output_clean_witness:
  "sanitizeText composeEAcute
     ([SP, SP, 0xFEFF, 0x00] @ js ''Hello'' @ [0x200B, SP, SP, SP] @ js ''World''
        @ [CR, LF, LF, LF, LF] @ js ''Test'' @ [0x1F, SP, SP])
     = js ''Hello World'' @ [LF, LF] @ js ''Test'' \<and>
   list_all (\<lambda>c. c = TAB \<or> c = LF \<or> \<not> (c \<le> 0x1F \<or> (0x7F \<le> c \<and> c \<le> 0x9F)))
     (js ''Hello World'' @ [LF, LF] @ js ''Test'') \<and>
   list_all (\<lambda>c. \<not> isZeroWidth c) (js ''Hello World'' @ [LF, LF] @ js ''Test'') \<and>
   list_all (\<lambda>c. \<not> isBidiControl c) (js ''Hello World'' @ [LF, LF] @ js ''Test'') \<and>
   CR \<notin> set (js ''Hello World'' @ [LF, LF] @ js ''Test'') \<and>
   \<not> sublist [SP, SP] (js ''Hello World'' @ [LF, LF] @ js ''Test'') \<and>
   \<not> sublist [LF, LF, LF] (js ''Hello World'' @ [LF, LF] @ js ''Test'') \<and>
   \<not> isWhiteSpace (hd (js ''Hello World'' @ [LF, LF] @ js ''Test'')) \<and>
   \<not> isWhiteSpace (last (js ''Hello World'' @ [LF, LF] @ js ''Test''))"
proof -
  let ?x = "[SP, SP, 0xFEFF, 0x00] @ js ''Hello'' @ [0x200B, SP, SP, SP] @ js ''World''
        @ [CR, LF, LF, LF, LF] @ js ''Test'' @ [0x1F, SP, SP]"
  have e: "sanitizeText composeEAcute ?x = js ''Hello World'' @ [LF, LF] @ js ''Test''"
    by code_simp
  have ne: "js ''Hello World'' @ [LF, LF] @ js ''Test'' \<noteq> []"
    by (simp add: js_def)
  note t = sanitizeText_output_clean [of composeEAcute ?x, unfolded Let_def e]
  from e ne t show ?thesis unfolding list_all_iff by blast
qed

text \<open>
  C4. \<^verbatim>\<open>sanitizeAndValidate\<close> returns the sanitized text, the length of the sanitized text,
  and \<open>valid\<close> exactly when that length reaches the minimum, 100 when none is passed: a
  sanitized length of 99 is invalid under the default, one of 100 valid.
\<close>

theorem sanitizeAndValidate_sanitizes_then_checks:
  "(let r = sanitizeAndValidate nfc t minLength;
        threshold = (case minLength of None \<Rightarrow> 100 | Some m \<Rightarrow> m)
    in text_out r = sanitizeText nfc t \<and>
       length_out r = length (sanitizeText nfc t) \<and>
       (valid r \<longleftrightarrow> threshold \<le> length (sanitizeText nfc t))) \<and>
   (length (sanitizeText nfc t) = 99 \<longrightarrow> \<not> valid (sanitizeAndValidate nfc t None)) \<and>
   (length (sanitizeText nfc t) = 100 \<longrightarrow> valid (sanitizeAndValidate nfc t None))"
  by (simp add: sanitizeAndValidate_def Let_def)

theorem sanitizeAndValidate_sanitizes_then_checks_witness:
  "length (sanitizeText composeEAcute (replicate 99 0x78)) = 99 \<and>
   \<not> valid (sanitizeAndValidate composeEAcute (replicate 99 0x78) None) \<and>
   length (sanitizeText composeEAcute (replicate 100 0x78)) = 100 \<and>
   valid (sanitizeAndValidate composeEAcute (replicate 100 0x78) None) \<and>
   length_out (sanitizeAndValidate composeEAcute (replicate 95 0x78 @ replicate 10 0x200B) (Some 100)) = 95 \<and>
   \<not> valid (sanitizeAndValidate composeEAcute (replicate 95 0x78 @ replicate 10 0x200B) (Some 100))"
proof -
  have a: "length (sanitizeText composeEAcute (replicate 99 0x78)) = 99" by code_simp
  have b: "length (sanitizeText composeEAcute (replicate 100 0x78)) = 100" by code_simp
  have c: "length (sanitizeText composeEAcute (replicate 95 0x78 @ replicate 10 0x200B)) = 95"
    by code_simp
  from sanitizeAndValidate_sanitizes_then_checks [of composeEAcute "replicate 99 0x78" None]
    sanitizeAndValidate_sanitizes_then_checks [of composeEAcute "replicate 100 0x78" None]
    sanitizeAndValidate_sanitizes_then_checks
      [of composeEAcute "replicate 95 0x78 @ replicate 10 0x200B" "Some 100"]
    a b c
  show ?thesis by (simp add: Let_def)
qed

section \<open>The token counter claims\<close>

lemma ceil_quarter: "nat \<lceil>real n / real CHARS_PER_TOKEN\<rceil> = (n + 3) div 4"
proof -
  have "\<lceil>real n / real CHARS_PER_TOKEN\<rceil> = \<lceil>of_int (int n) / (of_int 4 :: real)\<rceil>"
    by (simp add: CHARS_PER_TOKEN_def)
  also have "\<dots> = - (- int n div 4)" by (rule ceiling_divide_eq_div)
  finally show ?thesis by linarith
qed

text \<open>
  C8. Without a tokenizer \<^verbatim>\<open>countTokens\<close> returns the estimate, and so does
  \<^verbatim>\<open>countTokensEstimate\<close> always: the length divided by 4, rounded up, which is
  \<open>(length + 3) div 4\<close>; the empty string has 0 tokens.
\<close>

theorem countTokens_fallback_is_ceiling:
  "countTokens None t = nat \<lceil>real (length t) / 4\<rceil> \<and>
   countTokensEstimate t = nat \<lceil>real (length t) / 4\<rceil> \<and>
   countTokens None t = (length t + 3) div 4 \<and>
   countTokensEstimate t = (length t + 3) div 4 \<and>
   countTokens None [] = 0 \<and> countTokensEstimate [] = 0"
  using ceil_quarter [of "length t"]
  by (simp add: countTokens_def countTokensEstimate_def CHARS_PER_TOKEN_def)

lemma estimate_le_iff: "countTokensEstimate t \<le> m \<longleftrightarrow> length t \<le> m * CHARS_PER_TOKEN"
  using ceil_quarter [of "length t"]
  by (simp add: countTokensEstimate_def CHARS_PER_TOKEN_def) linarith

text \<open>
  C9. \<^verbatim>\<open>truncateToTokenLimit\<close> returns the text unchanged when its token count, exact or
  estimated as the mode has it, is within the limit. The empty string comes back empty, with
  0 tokens: always without a tokenizer, and with one that encodes the empty string to no
  tokens. Without a tokenizer the result is a prefix of the input whose estimate is within
  the limit.
\<close>

theorem truncateToTokenLimit_within_limit:
  "(countTokens tok t \<le> maxTokens \<longrightarrow> truncateToTokenLimit tok t maxTokens = t) \<and>
   truncateToTokenLimit None [] maxTokens = [] \<and> countTokens None [] = 0 \<and>
   (encode tk [] = [] \<longrightarrow>
      truncateToTokenLimit (Some tk) [] maxTokens = [] \<and> countTokens (Some tk) [] = 0) \<and>
   prefix (truncateToTokenLimit None t maxTokens) t \<and>
   countTokensEstimate (truncateToTokenLimit None t maxTokens) \<le> maxTokens"
proof -
  have 1: "countTokens tok t \<le> maxTokens \<longrightarrow> truncateToTokenLimit tok t maxTokens = t"
  proof (cases tok)
    case None
    then show ?thesis
      using estimate_le_iff [of t maxTokens]
      by (simp add: countTokens_def countTokensEstimate_def truncateToTokenLimit_def Let_def)
  next
    case (Some a)
    then show ?thesis by (simp add: countTokens_def truncateToTokenLimit_def Let_def)
  qed
  have 2: "truncateToTokenLimit None [] maxTokens = []"
    by (simp add: truncateToTokenLimit_def Let_def)
  have 3: "countTokens None [] = 0" by (simp add: countTokens_def)
  have 4: "encode tk [] = [] \<longrightarrow>
      truncateToTokenLimit (Some tk) [] maxTokens = [] \<and> countTokens (Some tk) [] = 0"
    by (simp add: countTokens_def truncateToTokenLimit_def Let_def)
  have 5: "prefix (truncateToTokenLimit None t maxTokens) t"
    by (simp add: truncateToTokenLimit_def Let_def slice_def take_is_prefix)
  have 6: "countTokensEstimate (truncateToTokenLimit None t maxTokens) \<le> maxTokens"
    unfolding estimate_le_iff
    by (simp add: truncateToTokenLimit_def Let_def slice_def)
  from 1 2 3 4 5 6 show ?thesis by blast
qed

theorem truncateToTokenLimit_within_limit_witness:
  "countTokens None (js ''Hello world!'') = 3 \<and>
   truncateToTokenLimit None (js ''Hello world!'') 100 = js ''Hello world!'' \<and>
   countTokens (Some unitTokenizer) (js ''Hello'') = 5 \<and>
   truncateToTokenLimit (Some unitTokenizer) (js ''Hello'') 5 = js ''Hello'' \<and>
   encode unitTokenizer [] = [] \<and>
   truncateToTokenLimit (Some unitTokenizer) [] 0 = [] \<and>
   truncateToTokenLimit None (js ''Hello world!'') 2 = js ''Hello wo'' \<and>
   prefix (js ''Hello wo'') (js ''Hello world!'') \<and>
   countTokensEstimate (js ''Hello wo'') \<le> 2"
proof -
  have a: "countTokens None (js ''Hello world!'') = 3"
    using ceil_quarter [of 12] by (simp add: countTokens_def js_def)
  have b: "countTokens (Some unitTokenizer) (js ''Hello'') = 5"
    by (simp add: countTokens_def unitTokenizer_def js_def)
  have c: "encode unitTokenizer [] = []" by (simp add: unitTokenizer_def)
  have d: "truncateToTokenLimit None (js ''Hello world!'') 2 = js ''Hello wo''"
    by (simp add: truncateToTokenLimit_def CHARS_PER_TOKEN_def slice_def js_def)
  from truncateToTokenLimit_within_limit [of None "js ''Hello world!''" 100 unitTokenizer]
    truncateToTokenLimit_within_limit [of "Some unitTokenizer" "js ''Hello''" 5 unitTokenizer]
    truncateToTokenLimit_within_limit [of None "js ''Hello world!''" 2 unitTokenizer]
    truncateToTokenLimit_within_limit [of None "[]" 0 unitTokenizer]
    a b c d
  show ?thesis by simp
qed

section \<open>The embedding client claims\<close>

subsection \<open>Batches\<close>

lemma partitionBatches_Nil [simp]: "partitionBatches n [] = []"
  by (subst partitionBatches.simps) simp

lemma partitionBatches_step:
  "0 < n \<Longrightarrow> xs \<noteq> [] \<Longrightarrow> partitionBatches n xs = take n xs # partitionBatches n (drop n xs)"
  by (subst partitionBatches.simps) simp

lemma partitionBatches_empty_iff: "0 < n \<Longrightarrow> partitionBatches n xs = [] \<longleftrightarrow> xs = []"
  by (subst partitionBatches.simps) simp

lemma concat_partitionBatches: "0 < n \<Longrightarrow> concat (partitionBatches n xs) = xs"
proof (induction n xs rule: partitionBatches.induct)
  case (1 n xs)
  show ?case
  proof (cases "xs = []")
    case True
    then show ?thesis by simp
  next
    case False
    with 1 show ?thesis by (simp add: partitionBatches_step)
  qed
qed

lemma partitionBatches_sizes:
  "0 < n \<Longrightarrow> b \<in> set (partitionBatches n xs) \<Longrightarrow> 1 \<le> length b \<and> length b \<le> n"
proof (induction n xs rule: partitionBatches.induct)
  case (1 n xs)
  show ?case
  proof (cases "xs = []")
    case True
    with 1(3) show ?thesis by simp
  next
    case False
    with 1(2,3) have "b = take n xs \<or> b \<in> set (partitionBatches n (drop n xs))"
      by (simp add: partitionBatches_step)
    then show ?thesis
    proof
      assume "b = take n xs"
      with False 1(2) show ?thesis by (cases xs) auto
    next
      assume "b \<in> set (partitionBatches n (drop n xs))"
      with 1(1)[OF _ 1(2)] False 1(2) show ?thesis by simp
    qed
  qed
qed

lemma createEmbeddings_ok:
  assumes "create texts = Inr r" "1 \<le> length texts" "length texts \<le> MAX_BATCH_SIZE"
  shows "\<exists>res. createEmbeddings (Some create) texts tr = (Inr res, tr @ [ProviderCall texts])
           \<and> embeddings res = vectorsOf (create texts)"
  using assms by (cases texts) (simp_all add: createEmbeddings_def vectorsOf_def)

lemma batchLoop_run:
  assumes "\<forall>b \<in> set (partitionBatches MAX_BATCH_SIZE (drop i texts)). \<exists>r. create b = Inr r"
  shows "batchLoop (Some create) texts p i acc tr =
           (Inr (acc @ concat (map (\<lambda>b. vectorsOf (create b))
                                (partitionBatches MAX_BATCH_SIZE (drop i texts)))),
            tr @ expectedEvents p (length texts) i (partitionBatches MAX_BATCH_SIZE (drop i texts)))"
  using assms
proof (induction "length texts - i" arbitrary: i acc tr rule: less_induct)
  case less
  have pos: "0 < MAX_BATCH_SIZE" by (simp add: MAX_BATCH_SIZE_def)
  show ?case
  proof (cases "i < length texts")
    case False
    then show ?thesis by (subst batchLoop.simps) simp
  next
    case True
    let ?batch = "slice texts i (i + MAX_BATCH_SIZE)"
    let ?rest = "drop (i + MAX_BATCH_SIZE) texts"
    from True have ne: "drop i texts \<noteq> []" by simp
    have batch: "?batch = take MAX_BATCH_SIZE (drop i texts)" by (simp add: slice_def)
    have part: "partitionBatches MAX_BATCH_SIZE (drop i texts)
                  = ?batch # partitionBatches MAX_BATCH_SIZE ?rest"
      unfolding batch using partitionBatches_step [OF pos ne] by (simp add: add.commute)
    from True have len: "length ?batch = min MAX_BATCH_SIZE (length texts - i)"
      by (simp add: batch)
    with True pos have sz: "1 \<le> length ?batch" "length ?batch \<le> MAX_BATCH_SIZE" by auto
    from less.prems part obtain r where r: "create ?batch = Inr r" by auto
    from createEmbeddings_ok [of create ?batch r tr, OF r sz] obtain res where
      res: "createEmbeddings (Some create) ?batch tr = (Inr res, tr @ [ProviderCall ?batch])"
      and emb: "embeddings res = vectorsOf (create ?batch)" by blast
    have cum: "min (i + MAX_BATCH_SIZE) (length texts) = i + length ?batch"
      using True len by auto
    have more: "i + MAX_BATCH_SIZE < length texts \<longleftrightarrow> partitionBatches MAX_BATCH_SIZE ?rest \<noteq> []"
      by (auto simp: partitionBatches_empty_iff [OF pos])
    have dec: "length texts - (i + MAX_BATCH_SIZE) < length texts - i"
      using True pos by simp
    have later: "\<forall>b \<in> set (partitionBatches MAX_BATCH_SIZE ?rest). \<exists>r. create b = Inr r"
      using less.prems part by simp
    note IH = less.hyps [OF dec later]
    have full: "partitionBatches MAX_BATCH_SIZE ?rest \<noteq> [] \<Longrightarrow> length ?batch = MAX_BATCH_SIZE"
      using more len by auto
    have tail: "expectedEvents p (length texts) (i + MAX_BATCH_SIZE)
                  (partitionBatches MAX_BATCH_SIZE ?rest)
                = expectedEvents p (length texts) (i + length ?batch)
                  (partitionBatches MAX_BATCH_SIZE ?rest)"
      using full by (cases "partitionBatches MAX_BATCH_SIZE ?rest = []") simp_all
    show ?thesis
      apply (subst batchLoop.simps)
      apply (simp only: True if_True Let_def res prod.case sum.case IH)
      apply (simp only: part cum emb more tail)
      apply simp
      done
  qed
qed

subsection \<open>The loop and the guards\<close>

lemma expectedEvents_delays:
  "length (filter (\<lambda>ev. ev = Delay 31000) (expectedEvents p n c bs)) = length bs - 1"
  by (induction bs arbitrary: c) auto

lemma expectedEvents_last:
  "bs \<noteq> [] \<Longrightarrow> last (tr @ expectedEvents p n c bs) \<noteq> Delay 31000"
proof (induction bs arbitrary: c tr)
  case Nil
  then show ?case by simp
next
  case (Cons b bs)
  show ?case
  proof (cases "bs = []")
    case True
    then show ?thesis by simp
  next
    case False
    have "tr @ expectedEvents p n c (b # bs)
            = (tr @ [ProviderCall b] @ (if p then [Progress (c + length b) n] else []) @ [Delay 31000])
              @ expectedEvents p n (c + length b) bs"
      using False by simp
    then show ?thesis by (metis Cons.IH [OF False])
  qed
qed

text \<open>
  C6. When the provider answers every batch, \<^verbatim>\<open>createEmbeddingsBatched\<close> cuts the texts in
  order into consecutive batches of 1 to 16, sends one request per batch in that order and
  returns the vectors of the answers concatenated in the same order. After each batch the
  callback, if there is one, gets the number of texts done so far and the total; a wait of
  31000 ms follows every batch but the last, so there is one wait fewer than batches and the
  run never ends on a wait.
\<close>

theorem createEmbeddingsBatched_batches:
  assumes ok: "\<forall>b \<in> set (partitionBatches 16 texts). \<exists>r. create b = Inr r"
  shows "(let batches = partitionBatches 16 texts;
              run = createEmbeddingsBatched (Some create) texts onProgress tr
          in concat batches = texts \<and>
             (\<forall>b \<in> set batches. 1 \<le> length b \<and> length b \<le> 16) \<and>
             fst run = Inr (concat (map (\<lambda>b. vectorsOf (create b)) batches)) \<and>
             snd run = tr @ expectedEvents onProgress (length texts) 0 batches \<and>
             length (filter (\<lambda>ev. ev = Delay 31000) (expectedEvents onProgress (length texts) 0 batches))
               = length batches - 1 \<and>
             (batches \<noteq> [] \<longrightarrow> last (snd run) \<noteq> Delay 31000))"
proof -
  have m: "MAX_BATCH_SIZE = 16" by (simp add: MAX_BATCH_SIZE_def)
  from ok have ok': "\<forall>b \<in> set (partitionBatches MAX_BATCH_SIZE (drop 0 texts)). \<exists>r. create b = Inr r"
    by (simp add: m)
  have run: "createEmbeddingsBatched (Some create) texts onProgress tr =
      (Inr (concat (map (\<lambda>b. vectorsOf (create b)) (partitionBatches 16 texts))),
       tr @ expectedEvents onProgress (length texts) 0 (partitionBatches 16 texts))"
    unfolding createEmbeddingsBatched_def using batchLoop_run [OF ok']
    by (simp add: m)
  have c: "concat (partitionBatches 16 texts) = texts" by (simp add: concat_partitionBatches)
  have s: "\<forall>b \<in> set (partitionBatches 16 texts). 1 \<le> length b \<and> length b \<le> 16"
    using partitionBatches_sizes [of 16 _ texts] by simp
  show ?thesis
    unfolding Let_def run fst_conv snd_conv
    using c s expectedEvents_delays expectedEvents_last by blast
qed

lemma lengthProvider_ok: "\<exists>r. lengthProvider b = Inr r"
  by (simp add: lengthProvider_def)

theorem createEmbeddingsBatched_batches_witness:
  "partitionBatches 16 (map (\<lambda>k. replicate k (0x61 :: jschar)) [0..<18])
     = [map (\<lambda>k. replicate k (0x61 :: jschar)) [0..<16], map (\<lambda>k. replicate k (0x61 :: jschar)) [16..<18]] \<and>
   createEmbeddingsBatched (Some lengthProvider) (map (\<lambda>k. replicate k (0x61 :: jschar)) [0..<18]) True []
     = (Inr [0..<18],
        [ProviderCall (map (\<lambda>k. replicate k (0x61 :: jschar)) [0..<16]), Progress 16 18, Delay 31000,
         ProviderCall (map (\<lambda>k. replicate k (0x61 :: jschar)) [16..<18]), Progress 18 18])"
proof -
  let ?texts = "map (\<lambda>k. replicate k (0x61 :: jschar)) [0..<18]"
  have h: "\<forall>b \<in> set (partitionBatches 16 ?texts). \<exists>r. lengthProvider b = Inr r"
    using lengthProvider_ok by blast
  have p: "partitionBatches 16 ?texts
     = [map (\<lambda>k. replicate k (0x61 :: jschar)) [0..<16], map (\<lambda>k. replicate k (0x61 :: jschar)) [16..<18]]"
    by code_simp
  have v: "concat (map (\<lambda>b. vectorsOf (lengthProvider b))
             [map (\<lambda>k. replicate k (0x61 :: jschar)) [0..<16], map (\<lambda>k. replicate k (0x61 :: jschar)) [16..<18]])
           = [0..<18]"
    by code_simp
  have l: "length ?texts = 18" by simp
  note t = createEmbeddingsBatched_batches [OF h, of True "[]", unfolded Let_def p v l]
  have "createEmbeddingsBatched (Some lengthProvider) ?texts True []
     = (Inr [0..<18],
        [ProviderCall (map (\<lambda>k. replicate k (0x61 :: jschar)) [0..<16]), Progress 16 18, Delay 31000,
         ProviderCall (map (\<lambda>k. replicate k (0x61 :: jschar)) [16..<18]), Progress 18 18])"
    using t by (simp add: prod_eq_iff)
  with p show ?thesis by (rule conjI)
qed

text \<open>
  C5, as amended. \<^verbatim>\<open>createEmbeddings\<close> fails without a request to the provider for more
  than 16 texts and for no text. For 1 to 16 texts the request is sent when the client is
  initialized; without a client the call fails before any request, whatever the texts.
\<close>

theorem createEmbeddings_batch_guards:
  "(16 < length texts \<longrightarrow>
      createEmbeddings mistral texts tr =
        (Inl (case mistral of None \<Rightarrow> ClientNotInitialized | Some create \<Rightarrow> MaximumTextsPerRequest), tr)) \<and>
   (texts = [] \<longrightarrow>
      createEmbeddings mistral texts tr =
        (Inl (case mistral of None \<Rightarrow> ClientNotInitialized | Some create \<Rightarrow> AtLeastOneTextRequired), tr)) \<and>
   (1 \<le> length texts \<and> length texts \<le> 16 \<longrightarrow>
      snd (createEmbeddings (Some create) texts tr) = tr @ [ProviderCall texts] \<and>
      createEmbeddings None texts tr = (Inl ClientNotInitialized, tr))"
  by (cases mistral; cases texts)
     (auto simp: createEmbeddings_def MAX_BATCH_SIZE_def split: sum.splits providerError.splits)

theorem createEmbeddings_batch_guards_witness:
  "createEmbeddings (Some lengthProvider) (replicate 17 (js ''test'')) [] = (Inl MaximumTextsPerRequest, []) \<and>
   createEmbeddings (Some lengthProvider) [] [] = (Inl AtLeastOneTextRequired, []) \<and>
   snd (createEmbeddings (Some lengthProvider) [js ''test''] []) = [ProviderCall [js ''test'']] \<and>
   createEmbeddings (None :: nat client option) [js ''test''] [] = (Inl ClientNotInitialized, [])"
  using createEmbeddings_batch_guards [of "replicate 17 (js ''test'')" "Some lengthProvider" "[]" lengthProvider]
    createEmbeddings_batch_guards [of "[]" "Some lengthProvider" "[]" lengthProvider]
    createEmbeddings_batch_guards [of "[js ''test'']" "None :: nat client option" "[]" lengthProvider]
  by simp

text \<open>
  C5, as stated, fails: with no API key configured the client is missing, and a call with
  one text throws before the provider is reached.
\<close>

theorem createEmbeddings_uninitialized_counterexample:
  "1 \<le> length [js ''test''] \<and> length [js ''test''] \<le> 16 \<and>
   \<not> list_ex isProviderCall (snd (createEmbeddings (None :: nat client option) [js ''test''] []))"
  by (simp add: createEmbeddings_def)

text \<open>
  C10. On the empty list \<^verbatim>\<open>createEmbeddingsBatched\<close> returns no vectors and does nothing
  else: no request, no callback, no wait. \<^verbatim>\<open>createEmbeddings\<close> throws on the empty list.
\<close>

theorem createEmbeddingsBatched_empty:
  "createEmbeddingsBatched mistral [] onProgress tr = (Inr [], tr) \<and>
   createEmbeddings mistral [] tr =
     (Inl (case mistral of None \<Rightarrow> ClientNotInitialized | Some create \<Rightarrow> AtLeastOneTextRequired), tr)"
  by (cases mistral)
     (simp_all add: createEmbeddingsBatched_def batchLoop.simps createEmbeddings_def MAX_BATCH_SIZE_def)

section \<open>The upload validation claim\<close>







section \<open>The vector key claim\<close>

lemma upsert_Cons: "upsert st ((k, r) # recs) = upsert (st(k \<mapsto> r)) recs"
  by (simp only: upsert_def fold.simps o_apply prod.case)

lemma upsert_map_add: "upsert st recs = st ++ map_of (rev recs)"
proof (induction recs arbitrary: st)
  case Nil
  then show ?case by (simp add: upsert_def)
next
  case (Cons x xs)
  obtain k r where x: "x = (k, r)" by (cases x)
  have "upsert st (x # xs) = upsert (st(k \<mapsto> r)) xs"
    unfolding x by (rule upsert_Cons)
  also have "\<dots> = st(k \<mapsto> r) ++ map_of (rev xs)" by (rule Cons.IH)
  also have "\<dots> = st ++ ([k \<mapsto> r] ++ map_of (rev xs))"
    by (rule ext) (simp add: map_add_def split: option.splits)
  also have "[k \<mapsto> r] ++ map_of (rev xs) = map_of (rev (x # xs))"
    by (simp add: x)
  finally show ?case .
qed

lemma dom_upsert: "dom (upsert st recs) = dom st \<union> fst ` set recs"
  by (simp add: upsert_map_add dom_map_of_conv_image_fst Un_commute)

lemma upsert_twice:
  assumes "map fst recs = map fst recs'"
  shows "upsert (upsert st recs) recs' = upsert st recs'"
proof -
  from assms have "fst ` set recs = fst ` set recs'" by (metis set_map)
  then have d: "dom (map_of (rev recs)) = dom (map_of (rev recs'))"
    by (simp add: dom_map_of_conv_image_fst)
  have "map_of (rev recs) ++ map_of (rev recs') = map_of (rev recs')"
  proof (rule ext)
    fix k
    show "(map_of (rev recs) ++ map_of (rev recs')) k = map_of (rev recs') k"
    proof (cases "map_of (rev recs') k")
      case None
      then have "k \<notin> dom (map_of (rev recs))" using d by (simp add: domIff)
      then have "map_of (rev recs) k = None" by (rule iffD1 [OF domIff [THEN Not_eq_iff [THEN iffD2], simplified]])
      with None show ?thesis by (simp add: map_add_def)
    next
      case (Some a)
      then show ?thesis by (simp add: map_add_def)
    qed
  qed
  then show ?thesis
    by (metis map_add_assoc upsert_map_add)
qed

lemma buildChunks_keys: "map pineconeId (buildChunks d pieces) = map (vectorKey d) [0..<length pieces]"
proof -
  have "map pineconeId (buildChunks d pieces) = map (vectorKey d \<circ> fst) (enumerate 0 pieces)"
    by (simp add: buildChunks_def split_def o_def)
  also have "\<dots> = map (vectorKey d) (map fst (enumerate 0 pieces))"
    by (simp only: map_map)
  also have "\<dots> = map (vectorKey d) [0..<length pieces]"
    by (simp add: map_fst_enumerate del: map_map)
  finally show ?thesis .
qed

lemma buildChunks_positions: "map position (buildChunks d pieces) = [0..<length pieces]"
proof -
  have "map position (buildChunks d pieces) = map fst (enumerate 0 pieces)"
    by (simp add: buildChunks_def split_def o_def)
  then show ?thesis by (simp add: map_fst_enumerate)
qed

lemma length_buildChunks: "length (buildChunks d pieces) = length pieces"
  by (simp add: buildChunks_def)

lemma ingest_keys:
  assumes "length vs = length pieces"
  shows "map fst (map (\<lambda>(c, v). (pineconeId c, (v, c))) (zip (buildChunks d pieces) vs))
           = map (vectorKey d) [0..<length pieces]"
proof -
  have "map fst (map (\<lambda>(c, v). (pineconeId c, (v, c))) (zip (buildChunks d pieces) vs))
          = map pineconeId (map fst (zip (buildChunks d pieces) vs))"
    by (simp add: split_def o_def)
  also have "map fst (zip (buildChunks d pieces) vs) = buildChunks d pieces"
    using assms by (simp add: length_buildChunks)
  finally show ?thesis by (simp only: buildChunks_keys)
qed

text \<open>
  C1. The key stored with the chunk at a position is \<open>vectorKey\<close> of the document
  identifier and the position, whatever the text. A second ingestion of the document, with
  as many chunks, produces the same keys; it replaces the vector records of the first and
  leaves the set of keys in the store as it was.
\<close>

theorem vector_keys_deterministic:
  "map pineconeId (buildChunks d pieces) = map (vectorKey d) [0..<length pieces] \<and>
   map position (buildChunks d pieces) = [0..<length pieces] \<and>
   (length pieces' = length pieces \<and> length vs = length pieces \<and> length vs' = length pieces \<longrightarrow>
      map pineconeId (buildChunks d pieces') = map pineconeId (buildChunks d pieces) \<and>
      ingestVectors (ingestVectors st d pieces vs) d pieces' vs' = ingestVectors st d pieces' vs' \<and>
      dom (ingestVectors (ingestVectors st d pieces vs) d pieces' vs')
        = dom (ingestVectors st d pieces vs))"
proof -
  have "ingestVectors (ingestVectors st d pieces vs) d pieces' vs' = ingestVectors st d pieces' vs' \<and>
      dom (ingestVectors (ingestVectors st d pieces vs) d pieces' vs')
        = dom (ingestVectors st d pieces vs)"
    if l: "length pieces' = length pieces" "length vs = length pieces" "length vs' = length pieces"
  proof -
    from l have k: "map fst (map (\<lambda>(c, v). (pineconeId c, (v, c))) (zip (buildChunks d pieces) vs))
        = map fst (map (\<lambda>(c, v). (pineconeId c, (v, c))) (zip (buildChunks d pieces') vs'))"
      using ingest_keys [of vs pieces d] ingest_keys [of vs' pieces' d] by simp
    then have s: "fst ` set (map (\<lambda>(c, v). (pineconeId c, (v, c))) (zip (buildChunks d pieces) vs))
        = fst ` set (map (\<lambda>(c, v). (pineconeId c, (v, c))) (zip (buildChunks d pieces') vs'))"
      by (metis set_map)
    have "ingestVectors (ingestVectors st d pieces vs) d pieces' vs' = ingestVectors st d pieces' vs'"
      unfolding ingestVectors_def by (rule upsert_twice [OF k])
    moreover have "dom (ingestVectors st d pieces' vs') = dom (ingestVectors st d pieces vs)"
      unfolding ingestVectors_def dom_upsert s ..
    ultimately show ?thesis by simp
  qed
  then show ?thesis
    using buildChunks_keys buildChunks_positions by metis
qed

theorem vector_keys_deterministic_witness:
  "map pineconeId (buildChunks (js ''doc'') [(js ''uno'', 1), (js ''due'', 1)])
     = [js ''doc_chunk_0'', js ''doc_chunk_1''] \<and>
   map pineconeId (buildChunks (js ''doc'') [(js ''one'', 2), (js ''two'', 3)])
     = [js ''doc_chunk_0'', js ''doc_chunk_1''] \<and>
   ingestVectors (ingestVectors Map.empty (js ''doc'') [(js ''uno'', 1), (js ''due'', 1)] [10 :: nat, 20])
       (js ''doc'') [(js ''one'', 2), (js ''two'', 3)] [30, 40]
     = ingestVectors Map.empty (js ''doc'') [(js ''one'', 2), (js ''two'', 3)] [30, 40] \<and>
   dom (ingestVectors (ingestVectors Map.empty (js ''doc'') [(js ''uno'', 1), (js ''due'', 1)] [10 :: nat, 20])
       (js ''doc'') [(js ''one'', 2), (js ''two'', 3)] [30, 40])
     = set [js ''doc_chunk_0'', js ''doc_chunk_1'']"
proof -
  let ?D = "js ''doc''"
  let ?ps = "[(js ''uno'', 1 :: nat), (js ''due'', 1)]"
  let ?ps' = "[(js ''one'', 2 :: nat), (js ''two'', 3)]"
  let ?vs = "[10 :: nat, 20]"
  let ?vs' = "[30 :: nat, 40]"
  let ?recs = "map (\<lambda>(c, v). (pineconeId c, (v, c))) (zip (buildChunks ?D ?ps) ?vs)"
  have k: "map (vectorKey ?D) [0..<2] = [js ''doc_chunk_0'', js ''doc_chunk_1'']"
    by code_simp
  have l: "length ?ps = 2" "length ?ps' = 2" by simp_all
  have len: "length ?ps' = length ?ps \<and> length ?vs = length ?ps \<and> length ?vs' = length ?ps"
    by simp
  note t = vector_keys_deterministic [of ?D ?ps ?ps' ?vs ?vs' Map.empty]
  from t have k1: "map pineconeId (buildChunks ?D ?ps) = map (vectorKey ?D) [0..<length ?ps]"
    by (rule conjunct1)
  from t len have
    k2: "map pineconeId (buildChunks ?D ?ps') = map pineconeId (buildChunks ?D ?ps)" and
    i: "ingestVectors (ingestVectors Map.empty ?D ?ps ?vs) ?D ?ps' ?vs'
          = ingestVectors Map.empty ?D ?ps' ?vs'" and
    d: "dom (ingestVectors (ingestVectors Map.empty ?D ?ps ?vs) ?D ?ps' ?vs')
          = dom (ingestVectors Map.empty ?D ?ps ?vs)"
    by blast+
  have "length ?vs = length ?ps" by simp
  then have "map fst ?recs = map (vectorKey ?D) [0..<length ?ps]" by (rule ingest_keys)
  then have "set (map fst ?recs) = set (map (vectorKey ?D) [0..<length ?ps])" by (rule arg_cong)
  then have "fst ` set ?recs = set (map (vectorKey ?D) [0..<length ?ps])" by (simp only: set_map)
  then have d0: "dom (ingestVectors Map.empty ?D ?ps ?vs) = set (map (vectorKey ?D) [0..<length ?ps])"
    by (simp only: ingestVectors_def dom_upsert dom_empty Un_empty_left)
  from k1 have a: "map pineconeId (buildChunks ?D ?ps) = [js ''doc_chunk_0'', js ''doc_chunk_1'']"
    by (simp only: l k)
  from k2 a have b: "map pineconeId (buildChunks ?D ?ps') = [js ''doc_chunk_0'', js ''doc_chunk_1'']"
    by (rule trans)
  from d d0 have c: "dom (ingestVectors (ingestVectors Map.empty ?D ?ps ?vs) ?D ?ps' ?vs')
          = set [js ''doc_chunk_0'', js ''doc_chunk_1'']"
    by (simp only: l k)
  from a b i c show ?thesis by (intro conjI)
qed

end
